theory Spec2Isabelle
  imports Main "HOL-Library.AList"
begin

section \<open>The Python values of \<^verbatim>\<open>plugin.py\<close>\<close>

text \<open>
  A Python \<^verbatim>\<open>str\<close> is a \<^typ>\<open>string\<close>: a list of characters, each a code point
  below 256. A failing index or key lookup is a value of \<open>error\<close>; a function of the
  source that can reach one returns \<open>error + 'a\<close>, the error on the left.
\<close>

datatype error = IndexError | KeyError

abbreviation bs :: char where
  "bs \<equiv> CHR 0x5C"

subsection \<open>Operations on \<^verbatim>\<open>str\<close>\<close>

definition startswith :: "string \<Rightarrow> string \<Rightarrow> bool" where
  \<comment> \<open>\<^verbatim>\<open>s.startswith(p)\<close>\<close>
  "startswith s p = (take (length p) s = p)"

definition slice :: "string \<Rightarrow> nat \<Rightarrow> nat \<Rightarrow> string" where
  \<comment> \<open>\<^verbatim>\<open>s[i:j]\<close> for \<open>0 \<le> i \<le> j\<close>; a slice never fails, it is cut at the end of \<open>s\<close>\<close>
  "slice s i j = take (j - i) (drop i s)"

definition slice_from :: "string \<Rightarrow> nat \<Rightarrow> string" where
  \<comment> \<open>\<^verbatim>\<open>s[i:]\<close>\<close>
  "slice_from s i = drop i s"

definition slice_to_neg :: "string \<Rightarrow> nat \<Rightarrow> string" where
  \<comment> \<open>\<^verbatim>\<open>s[:-n]\<close> for \<open>n > 0\<close>\<close>
  "slice_to_neg s n = take (length s - n) s"

definition index :: "string \<Rightarrow> nat \<Rightarrow> error + char" where
  \<comment> \<open>\<^verbatim>\<open>s[i]\<close> for \<open>i \<ge> 0\<close>\<close>
  "index s i = (if i < length s then Inr (s ! i) else Inl IndexError)"

definition index_neg :: "string \<Rightarrow> nat \<Rightarrow> error + char" where
  \<comment> \<open>\<^verbatim>\<open>s[-n]\<close> for \<open>n > 0\<close>: the \<open>n\<close>-th character from the end\<close>
  "index_neg s n =
     (if 0 < n \<and> n \<le> length s then Inr (s ! (length s - n)) else Inl IndexError)"

definition replace_char :: "char \<Rightarrow> char \<Rightarrow> string \<Rightarrow> string" where
  \<comment> \<open>\<^verbatim>\<open>s.replace(old, new)\<close> for one-character \<open>old\<close> and \<open>new\<close>\<close>
  "replace_char old new s = map (\<lambda>c. if c = old then new else c) s"

definition lower_char :: "char \<Rightarrow> char" where
  \<comment> \<open>\<^verbatim>\<open>c.lower()\<close> of a one-character string: \<open>A\<close>-\<open>Z\<close> and the upper-case
      letters of Latin-1 (0xC0-0xDE without 0xD7) move up by 32\<close>
  "lower_char c =
     (let n = (of_char c :: nat)
      in if (65 \<le> n \<and> n \<le> 90) \<or> (192 \<le> n \<and> n \<le> 222 \<and> n \<noteq> 215)
         then char_of (n + 32) else c)"

definition isspace :: "char \<Rightarrow> bool" where
  \<comment> \<open>\<^verbatim>\<open>c.isspace()\<close>: the white space that \<^verbatim>\<open>strip()\<close> removes\<close>
  "isspace c =
     (let n = (of_char c :: nat)
      in (9 \<le> n \<and> n \<le> 13) \<or> (28 \<le> n \<and> n \<le> 32) \<or> n = 133 \<or> n = 160)"

definition strip_chars :: "(char \<Rightarrow> bool) \<Rightarrow> string \<Rightarrow> string" where
  \<comment> \<open>removes the characters satisfying \<open>P\<close> from both ends\<close>
  "strip_chars P s = rev (dropWhile P (rev (dropWhile P s)))"

definition strip :: "string \<Rightarrow> string" where
  \<comment> \<open>\<^verbatim>\<open>s.strip()\<close>\<close>
  "strip s = strip_chars isspace s"

definition strip_of :: "string \<Rightarrow> string \<Rightarrow> string" where
  \<comment> \<open>\<^verbatim>\<open>s.strip(chars)\<close>\<close>
  "strip_of chars s = strip_chars (\<lambda>c. c \<in> set chars) s"

fun split :: "char \<Rightarrow> string \<Rightarrow> string list" where
  \<comment> \<open>\<^verbatim>\<open>s.split(sep)\<close> for a one-character \<open>sep\<close>: empty pieces are kept\<close>
  "split sep [] = [[]]"
| "split sep (c # cs) =
     (if c = sep then [] # split sep cs
      else (case split sep cs of
              [] \<Rightarrow> [[c]]
            | t # ts \<Rightarrow> (c # t) # ts))"

fun join :: "string \<Rightarrow> string list \<Rightarrow> string" where
  \<comment> \<open>\<^verbatim>\<open>sep.join(xs)\<close>\<close>
  "join sep [] = []"
| "join sep [x] = x"
| "join sep (x # y # ys) = x @ sep @ join sep (y # ys)"

subsection \<open>The regular expression of \<^verbatim>\<open>wsl_path\<close>\<close>

text \<open>
  \<^verbatim>\<open>re.sub(r"\\\\wsl(?:\.localhost|\$)\\[^\\]*", "", path)\<close> deletes every
  non-overlapping match, found from left to right. A match is two backslashes,
  \<^verbatim>\<open>wsl\<close>, then \<^verbatim>\<open>.localhost\<close> or \<^verbatim>\<open>$\<close>, a backslash and the longest run of
  characters other than a backslash. \<open>match_unc\<close> matches at the start of a string
  and returns what follows the match.
\<close>

definition unc_localhost :: string where
  "unc_localhost = [bs, bs] @ ''wsl.localhost'' @ [bs]"

definition unc_dollar :: string where
  "unc_dollar = [bs, bs] @ ''wsl$'' @ [bs]"

definition match_unc :: "string \<Rightarrow> string option" where
  "match_unc s =
     (if startswith s unc_localhost
      then Some (dropWhile (\<lambda>c. c \<noteq> bs) (drop (length unc_localhost) s))
      else if startswith s unc_dollar
      then Some (dropWhile (\<lambda>c. c \<noteq> bs) (drop (length unc_dollar) s))
      else None)"

lemma startswith_rest_shorter:
  assumes "startswith s p" and "p \<noteq> []"
  shows "length (dropWhile Q (drop (length p) s)) < length s"
proof -
  have "length p \<le> length s"
    using assms(1) unfolding startswith_def by (metis length_take min.cobounded1)
  moreover have "0 < length p"
    using assms(2) by simp
  moreover have "length (dropWhile Q (drop (length p) s)) \<le> length s - length p"
    using length_dropWhile_le [of Q "drop (length p) s"] by simp
  ultimately show ?thesis
    by linarith
qed

lemma match_unc_shorter: "match_unc s = Some r \<Longrightarrow> length r < length s"
proof -
  assume m: "match_unc s = Some r"
  have "unc_localhost \<noteq> []" and "unc_dollar \<noteq> []"
    by (simp_all add: unc_localhost_def unc_dollar_def)
  then show ?thesis
    using m startswith_rest_shorter [of s unc_localhost] startswith_rest_shorter [of s unc_dollar]
    unfolding match_unc_def by (auto split: if_splits)
qed

function re_sub_unc :: "string \<Rightarrow> string" where
  "re_sub_unc [] = []"
| "re_sub_unc (c # cs) =
     (case match_unc (c # cs) of
        Some rest \<Rightarrow> re_sub_unc rest
      | None \<Rightarrow> c # re_sub_unc cs)"
  by pat_completeness auto
termination
  by (relation "measure length") (auto dest: match_unc_shorter)

section \<open>\<^verbatim>\<open>WslExecCommand.wsl_path\<close>\<close>

definition wsl_path :: "string \<Rightarrow> error + string" where
  "wsl_path path =
     (case (if startswith path [bs, bs] then Inr (re_sub_unc path)
            else if slice path 1 3 = [CHR '':'', bs]
            then (case index path 0 of
                    Inl e \<Rightarrow> Inl e
                  | Inr c \<Rightarrow> Inr (''/mnt/'' @ [lower_char c] @ slice_from path 2))
            else Inr path) of
        Inl e \<Rightarrow> Inl e
      | Inr path' \<Rightarrow> Inr (replace_char bs CHR ''/'' path'))"

section \<open>\<^verbatim>\<open>WslExecCommand.wsl_cmd\<close>\<close>

text \<open>The command is a \<^verbatim>\<open>str\<close> or a \<^verbatim>\<open>list\<close> of strings; \<^verbatim>\<open>isinstance(cmd, str)\<close> tells them apart.\<close>

datatype cmd = CmdStr string | CmdList "string list"

definition wsl_cmd :: "cmd \<Rightarrow> string \<Rightarrow> bool \<Rightarrow> error + string list" where
  "wsl_cmd cmd cwd external =
     (let wsl = (if external then [''start'', ''cmd'', ''/k'', ''wsl''] else [''wsl''])
      in case (if cwd \<noteq> []
               then (case wsl_path cwd of
                       Inl e \<Rightarrow> Inl e
                     | Inr p \<Rightarrow> Inr (wsl @ [''cd'', p, '';'']))
               else Inr wsl) of
           Inl e \<Rightarrow> Inl e
         | Inr wsl' \<Rightarrow>
             (case cmd of
                CmdStr s \<Rightarrow> Inr (wsl' @ map strip (split CHR '' '' s))
              | CmdList args \<Rightarrow> Inr (wsl' @ args)))"

section \<open>\<^verbatim>\<open>WslExecCommand.wsl_env\<close>\<close>

text \<open>
  A \<^verbatim>\<open>dict\<close> is an association list with distinct keys, in iteration order: assigning
  to a key that is present replaces its value in place, assigning to a new key appends
  the entry, and \<^verbatim>\<open>pop\<close> removes the entry or raises \<^verbatim>\<open>KeyError\<close>.
\<close>

type_synonym env = "(string \<times> string) list"

definition dict_get :: "env \<Rightarrow> string \<Rightarrow> string \<Rightarrow> string" where
  \<comment> \<open>\<^verbatim>\<open>d.get(k, default)\<close>\<close>
  "dict_get d k dflt = (case map_of d k of None \<Rightarrow> dflt | Some v \<Rightarrow> v)"

definition dict_getitem :: "env \<Rightarrow> string \<Rightarrow> error + string" where
  \<comment> \<open>\<^verbatim>\<open>d[k]\<close>\<close>
  "dict_getitem d k = (case map_of d k of None \<Rightarrow> Inl KeyError | Some v \<Rightarrow> Inr v)"

definition dict_setitem :: "env \<Rightarrow> string \<Rightarrow> string \<Rightarrow> env" where
  \<comment> \<open>\<^verbatim>\<open>d[k] = v\<close>\<close>
  "dict_setitem d k v = AList.update k v d"

definition dict_pop :: "env \<Rightarrow> string \<Rightarrow> error + (string \<times> env)" where
  \<comment> \<open>\<^verbatim>\<open>d.pop(k)\<close>: the value and the dictionary without the key\<close>
  "dict_pop d k =
     (case map_of d k of
        None \<Rightarrow> Inl KeyError
      | Some v \<Rightarrow> Inr (v, AList.delete k d))"

text \<open>
  The loop \<^verbatim>\<open>for key in keys\<close>. The test reads \<^verbatim>\<open>key[-2]\<close> first and \<^verbatim>\<open>key[-1]\<close>
  only when the former is a slash.
\<close>

fun strip_flags :: "string list \<Rightarrow> env \<Rightarrow> error + env" where
  "strip_flags [] env = Inr env"
| "strip_flags (key # keys) env =
     (case index_neg key 2 of
        Inl e \<Rightarrow> Inl e
      | Inr c2 \<Rightarrow>
          if c2 = CHR ''/''
          then (case index_neg key 1 of
                  Inl e \<Rightarrow> Inl e
                | Inr c1 \<Rightarrow>
                    if c1 \<in> set ''lpuw''
                    then (case dict_pop env key of
                            Inl e \<Rightarrow> Inl e
                          | Inr (v, env') \<Rightarrow>
                              strip_flags keys (dict_setitem env' (slice_to_neg key 2) v))
                    else strip_flags keys env)
          else strip_flags keys env)"

definition wsl_env :: "env \<Rightarrow> error + env" where
  "wsl_env env =
     (let keys = map fst env
      in if keys \<noteq> []
         then (let existing = dict_get env ''WSLENV'' '''';
                   env1 = dict_setitem env ''WSLENV'' (join '':'' keys)
               in case (if existing \<noteq> []
                        then (case dict_getitem env1 ''WSLENV'' of
                                Inl e \<Rightarrow> Inl e
                              | Inr cur \<Rightarrow>
                                  Inr (dict_setitem env1 ''WSLENV''
                                         (cur @ '':'' @ strip_of '' :'' existing)))
                        else Inr env1) of
                    Inl e \<Rightarrow> Inl e
                  | Inr env2 \<Rightarrow> strip_flags keys env2)
         else Inr env)"

section \<open>Predicates of the statements\<close>

text \<open>An ASCII letter: \<open>A\<close>-\<open>Z\<close> or \<open>a\<close>-\<open>z\<close>.\<close>

definition ascii_letter :: "char \<Rightarrow> bool" where
  "ascii_letter c =
     (let n = (of_char c :: nat) in (65 \<le> n \<and> n \<le> 90) \<or> (97 \<le> n \<and> n \<le> 122))"

text \<open>
  The test of the loop in \<^verbatim>\<open>wsl_env\<close>, on a key that is long enough to be read: a
  name is flagged when it ends in a slash and one of \<open>l\<close>, \<open>p\<close>, \<open>u\<close>, \<open>w\<close>;
  \<open>strip_flag\<close> is the name without that suffix (\<^verbatim>\<open>key[:-2]\<close>).
\<close>

definition flagged :: "string \<Rightarrow> bool" where
  "flagged k = (2 \<le> length k \<and> k ! (length k - 2) = CHR ''/'' \<and> last k \<in> set ''lpuw'')"

definition strip_flag :: "string \<Rightarrow> string" where
  "strip_flag k = (if flagged k then take (length k - 2) k else k)"

text \<open>
  The value that \<^verbatim>\<open>wsl_env\<close> stores under \<open>WSLENV\<close> before its loop: the keys joined by
  colons and, when the mapping has a \<open>WSLENV\<close> entry that is not empty, a colon and that
  entry's value without the spaces and colons at its ends.
\<close>

definition directive :: "env \<Rightarrow> string" where
  "directive env =
     join '':'' (map fst env) @
     (case map_of env ''WSLENV'' of
        None \<Rightarrow> []
      | Some w \<Rightarrow> if w = [] then [] else '':'' @ strip_of '' :'' w)"

text \<open>
  What holds of the keys still to be visited and the dictionary at every turn of the
  loop: the keys are distinct, long enough to be read, and present in the dictionary.
\<close>

definition loop_ok :: "string list \<Rightarrow> env \<Rightarrow> bool" where
  "loop_ok ks env =
     ((\<forall>k \<in> set ks. 2 \<le> length k) \<and> distinct ks \<and> set ks \<subseteq> fst ` set env
      \<and> distinct (map fst env))"

section \<open>Properties of \<^verbatim>\<open>wsl_path\<close>\<close>

lemma replace_char_no_old: "old \<noteq> new \<Longrightarrow> old \<notin> set (replace_char old new s)"
  by (auto simp: replace_char_def)

lemma replace_char_absent: "old \<notin> set s \<Longrightarrow> replace_char old new s = s"
  by (induction s) (auto simp: replace_char_def)

lemma startswith_bs_bs: "startswith p [bs, bs] \<longleftrightarrow> (\<exists>r. p = bs # bs # r)"
  unfolding startswith_def
  by (cases p; simp; cases "tl p"; auto)

lemma slice_colon_bs:
  "slice p 1 3 = [CHR '':'', bs] \<longleftrightarrow> (\<exists>c r. p = c # CHR '':'' # bs # r)"
proof (cases p)
  case Nil
  then show ?thesis by (simp add: slice_def)
next
  case (Cons a l)
  show ?thesis
  proof (cases l)
    case Nil
    with Cons show ?thesis by (simp add: slice_def)
  next
    case (Cons b m)
    with \<open>p = a # l\<close> show ?thesis
      by (cases m) (simp_all add: slice_def)
  qed
qed

lemma wsl_path_drive:
  "wsl_path (c # CHR '':'' # bs # rest) =
     Inr (''/mnt/'' @ replace_char bs CHR ''/'' (lower_char c # bs # rest))"
  by (simp add: wsl_path_def startswith_def slice_def index_def slice_from_def replace_char_def)

lemma wsl_path_other:
  "\<not> startswith p [bs, bs] \<Longrightarrow> slice p 1 3 \<noteq> [CHR '':'', bs] \<Longrightarrow>
     wsl_path p = Inr (replace_char bs CHR ''/'' p)"
  by (simp add: wsl_path_def)

lemma wsl_path_unc:
  "startswith p [bs, bs] \<Longrightarrow> wsl_path p = Inr (replace_char bs CHR ''/'' (re_sub_unc p))"
  by (simp add: wsl_path_def)

lemma wsl_path_total: "\<exists>q. wsl_path p = Inr q \<and> bs \<notin> set q"
proof (cases "startswith p [bs, bs]")
  case True
  then show ?thesis by (simp add: wsl_path_unc replace_char_no_old)
next
  case False
  show ?thesis
  proof (cases "slice p 1 3 = [CHR '':'', bs]")
    case True
    then obtain c r where "p = c # CHR '':'' # bs # r"
      using slice_colon_bs by blast
    then show ?thesis
      using replace_char_no_old [of bs "CHR ''/''"] by (simp add: wsl_path_drive)
  next
    case False
    with \<open>\<not> startswith p [bs, bs]\<close> show ?thesis
      by (simp add: wsl_path_other replace_char_no_old)
  qed
qed

lemma wsl_path_posix: "bs \<notin> set p \<Longrightarrow> wsl_path p = Inr p"
proof -
  assume a: "bs \<notin> set p"
  then have "\<not> startswith p [bs, bs]"
    by (auto simp: startswith_bs_bs)
  moreover have "slice p 1 3 \<noteq> [CHR '':'', bs]"
    using a slice_colon_bs [of p] by auto
  ultimately show ?thesis
    using a by (simp add: wsl_path_other replace_char_absent)
qed

lemma of_char_char_of_nat: "n < 256 \<Longrightarrow> (of_char (char_of (n::nat)) :: nat) = n"
  by simp

lemma lower_char_letter:
  "ascii_letter x \<Longrightarrow>
     (of_char (lower_char x) :: nat) =
       (if (of_char x :: nat) \<le> 90 then of_char x + 32 else of_char x)"
proof -
  assume "ascii_letter x"
  define n where "n = (of_char x :: nat)"
  have r: "(65 \<le> n \<and> n \<le> 90) \<or> (97 \<le> n \<and> n \<le> 122)"
    using \<open>ascii_letter x\<close> by (simp add: ascii_letter_def n_def Let_def)
  have "(of_char (lower_char x) :: nat) = (if n \<le> 90 then n + 32 else n)"
  proof (cases "n \<le> 90")
    case True
    then have "lower_char x = char_of (n + 32)"
      using r by (simp add: lower_char_def Let_def n_def)
    then show ?thesis
      using True of_char_char_of_nat [of "n + 32"] by simp
  next
    case False
    then have "lower_char x = x"
      using r by (simp add: lower_char_def Let_def n_def)
    then show ?thesis
      using False by (simp add: n_def)
  qed
  then show ?thesis
    by (simp add: n_def)
qed

text \<open>
  C6. A drive-letter path \<open>X:\a\b\<close>, with \<open>X\<close> an ASCII letter, is translated to
  \<open>/mnt/x/a/b\<close>: the mount root, the letter in lower case (an upper-case letter moves
  up by 32, a lower-case one stays), a slash, and the rest of the path with every
  backslash turned into a slash and nothing else changed.
\<close>

theorem wsl_path_drive_letter:
  "ascii_letter x \<Longrightarrow>
     wsl_path ([x, CHR '':'', bs] @ rest) =
       Inr (''/mnt/'' @ [lower_char x] @ ''/'' @ map (\<lambda>c. if c = bs then CHR ''/'' else c) rest)
     \<and> (of_char (lower_char x) :: nat) =
         (if (of_char x :: nat) \<le> 90 then of_char x + 32 else of_char x)"
proof -
  assume l: "ascii_letter x"
  have "(of_char x :: nat) \<noteq> 60 \<and> (of_char x :: nat) \<noteq> 92"
    using l by (auto simp: ascii_letter_def Let_def)
  then have "(of_char (lower_char x) :: nat) \<noteq> 92"
    using lower_char_letter [OF l] by (simp split: if_splits)
  then have "lower_char x \<noteq> bs"
    by auto
  then show ?thesis
    using lower_char_letter [OF l] by (simp add: wsl_path_drive replace_char_def)
qed

theorem wsl_path_drive_letter_witness:
  "ascii_letter CHR ''C'' \<and>
     wsl_path (''C:'' @ [bs] @ ''a'' @ [bs] @ ''b'') = Inr ''/mnt/c/a/b''"
proof -
  have l: "ascii_letter CHR ''C''"
    by (simp add: ascii_letter_def)
  have "lower_char CHR ''C'' = CHR ''c''"
    by code_simp
  then show ?thesis
    using l wsl_path_drive_letter [OF l, of "''a'' @ [bs] @ ''b''"] by simp
qed

text \<open>
  C7. Both spellings of the network prefix, \<open>\\wsl$\Ubuntu\<close> and
  \<open>\\wsl.localhost\Ubuntu\<close>, are removed: either path translates to \<open>/home/u\<close>.
\<close>

theorem wsl_path_unc_spellings:
  "wsl_path ([bs, bs] @ ''wsl$'' @ [bs] @ ''Ubuntu'' @ [bs] @ ''home'' @ [bs] @ ''u'')
     = Inr ''/home/u''
   \<and> wsl_path ([bs, bs] @ ''wsl.localhost'' @ [bs] @ ''Ubuntu'' @ [bs] @ ''home'' @ [bs] @ ''u'')
     = Inr ''/home/u''"
  by (simp add: wsl_path_def startswith_def match_unc_def unc_localhost_def unc_dollar_def
      replace_char_def)

text \<open>
  C9. Translating twice is translating once. This holds for every path, since a translated
  path has no backslash left; a path without backslashes, such as one already in POSIX
  form, is returned as it is.
\<close>

theorem wsl_path_idempotent:
  "\<exists>q. wsl_path p = Inr q \<and> wsl_path q = Inr q \<and> (bs \<notin> set p \<longrightarrow> q = p)"
proof -
  obtain q where q: "wsl_path p = Inr q" "bs \<notin> set q"
    using wsl_path_total by blast
  moreover have "wsl_path q = Inr q"
    using q(2) by (rule wsl_path_posix)
  moreover have "bs \<notin> set p \<longrightarrow> q = p"
    using q(1) wsl_path_posix [of p] by auto
  ultimately show ?thesis by blast
qed

theorem wsl_path_idempotent_witness:
  "bs \<notin> set ''/home/u'' \<and> wsl_path ''/home/u'' = Inr ''/home/u''"
  using wsl_path_idempotent [of "''/home/u''"] by auto

text \<open>
  C8, as the code has it. The first character is never inspected: the path \<open>1:\a\<close>,
  whose first character is a digit, is rewritten to the mount form \<open>/mnt/1/a\<close> and not
  passed through as \<open>1:/a\<close>.
\<close>

theorem wsl_path_digit_drive_counterexample:
  "\<not> ascii_letter CHR ''1''
   \<and> wsl_path (''1:'' @ [bs] @ ''a'') = Inr ''/mnt/1/a''
   \<and> wsl_path (''1:'' @ [bs] @ ''a'') \<noteq> Inr (replace_char bs CHR ''/'' (''1:'' @ [bs] @ ''a''))"
  by (simp add: ascii_letter_def wsl_path_def startswith_def slice_def index_def slice_from_def
      replace_char_def lower_char_def)

text \<open>
  C8, amended. The rewrite to the mount form applies exactly to the paths with a colon
  and a backslash at positions 1 and 2, whatever the character at position 0: such a
  path \<open>c:\rest\<close> becomes \<open>/mnt/\<close> followed by \<open>lower(c)\rest\<close> with its backslashes
  turned into slashes. Every other path that does not begin with two backslashes is
  passed through with only its backslashes turned into slashes.
\<close>

theorem wsl_path_drive_rewrite_condition:
  "wsl_path (c # CHR '':'' # bs # rest) =
     Inr (''/mnt/'' @ replace_char bs CHR ''/'' (lower_char c # bs # rest))
   \<and> (\<not> startswith p [bs, bs] \<longrightarrow> \<not> (\<exists>c' rest'. p = c' # CHR '':'' # bs # rest') \<longrightarrow>
        wsl_path p = Inr (replace_char bs CHR ''/'' p))"
  using wsl_path_other [of p] slice_colon_bs [of p] by (simp add: wsl_path_drive)

theorem wsl_path_drive_rewrite_condition_witness:
  "\<not> startswith ''1:a'' [bs, bs] \<and> \<not> (\<exists>c' rest'. ''1:a'' = c' # CHR '':'' # bs # rest')
   \<and> wsl_path ''1:a'' = Inr ''1:a''"
  using wsl_path_drive_rewrite_condition [of "CHR ''1''" "''a''" "''1:a''"]
  by (simp add: startswith_def replace_char_def)

section \<open>Properties of \<^verbatim>\<open>wsl_cmd\<close>\<close>

lemma split_not_Nil: "split sep s \<noteq> []"
  by (induction s) (auto split: list.splits)

lemma split_append_sep: "split sep (a @ sep # b) = split sep a @ split sep b"
proof (induction a)
  case Nil
  then show ?case by simp
next
  case (Cons c a)
  then show ?case
    using split_not_Nil [of sep a] by (cases "split sep a") auto
qed

lemma length_split: "length (split sep s) = Suc (length (filter (\<lambda>c. c = sep) s))"
proof (induction s)
  case Nil
  then show ?case by simp
next
  case (Cons c s)
  then show ?case
    using split_not_Nil [of sep s] by (cases "split sep s") auto
qed

lemma strip_chars_prefix:
  "dropWhile P s = strip_chars P s @ rev (takeWhile P (rev (dropWhile P s)))"
proof -
  have "rev (dropWhile P s) = takeWhile P (rev (dropWhile P s)) @ dropWhile P (rev (dropWhile P s))"
    by simp
  then have "rev (rev (dropWhile P s)) =
      rev (dropWhile P (rev (dropWhile P s))) @ rev (takeWhile P (rev (dropWhile P s)))"
    by (metis rev_append)
  then show ?thesis
    by (simp add: strip_chars_def)
qed

lemma strip_chars_ends:
  assumes "strip_chars P s \<noteq> []"
  shows "\<not> P (hd (strip_chars P s)) \<and> \<not> P (last (strip_chars P s))"
proof -
  have ne: "dropWhile P s \<noteq> []"
    using assms by (cases "dropWhile P s = []") (simp_all add: strip_chars_def)
  have "hd (strip_chars P s) = hd (dropWhile P s)"
    using assms strip_chars_prefix [of P s] by (metis hd_append2)
  then have "\<not> P (hd (strip_chars P s))"
    using ne hd_dropWhile [of P s] by simp
  moreover have "dropWhile P (rev (dropWhile P s)) \<noteq> []"
    using assms by (simp add: strip_chars_def)
  then have "\<not> P (hd (dropWhile P (rev (dropWhile P s))))"
    by (rule hd_dropWhile)
  then have "\<not> P (last (strip_chars P s))"
    using assms by (simp add: strip_chars_def last_rev)
  ultimately show ?thesis by simp
qed

lemma wsl_cmd_list_nil:
  "\<exists>d. wsl_path cwd = Inr d \<and>
     wsl_cmd (CmdList []) cwd external =
       Inr ((if external then [''start'', ''cmd'', ''/k'', ''wsl''] else [''wsl'']) @
            (if cwd = [] then [] else [''cd'', d, '';'']))"
proof -
  obtain d where "wsl_path cwd = Inr d"
    using wsl_path_total by blast
  then show ?thesis
    by (simp add: wsl_cmd_def)
qed

lemma wsl_cmd_str:
  "wsl_cmd (CmdList []) cwd external = Inr pre \<Longrightarrow>
     wsl_cmd (CmdStr s) cwd external = Inr (pre @ map strip (split CHR '' '' s))"
  by (auto simp: wsl_cmd_def Let_def split: if_splits sum.splits)

lemma wsl_cmd_list:
  "wsl_cmd (CmdList []) cwd external = Inr pre \<Longrightarrow>
     wsl_cmd (CmdList args) cwd external = Inr (pre @ args)"
  by (auto simp: wsl_cmd_def Let_def split: if_splits sum.splits)

text \<open>
  C5. The command \<open>echo hi\<close> without a working directory gives \<open>wsl echo hi\<close>; with a
  working directory \<open>D\<close> that is not empty and has no backslash (a path in POSIX form)
  it gives \<open>wsl cd D ; echo hi\<close>.
\<close>

theorem wsl_cmd_echo_hi:
  "wsl_cmd (CmdStr ''echo hi'') [] False = Inr [''wsl'', ''echo'', ''hi'']
   \<and> (D \<noteq> [] \<longrightarrow> bs \<notin> set D \<longrightarrow>
        wsl_cmd (CmdStr ''echo hi'') D False = Inr [''wsl'', ''cd'', D, '';'', ''echo'', ''hi''])"
proof -
  have "wsl_cmd (CmdStr ''echo hi'') [] False = Inr [''wsl'', ''echo'', ''hi'']"
    by (simp add: wsl_cmd_def strip_def strip_chars_def isspace_def)
  moreover have "wsl_cmd (CmdStr ''echo hi'') D False = Inr [''wsl'', ''cd'', D, '';'', ''echo'', ''hi'']"
    if "D \<noteq> []" and "bs \<notin> set D"
    using that by (simp add: wsl_cmd_def wsl_path_posix strip_def strip_chars_def isspace_def)
  ultimately show ?thesis by blast
qed

theorem wsl_cmd_echo_hi_witness:
  "''/home/u'' \<noteq> [] \<and> bs \<notin> set ''/home/u'' \<and>
   wsl_cmd (CmdStr ''echo hi'') ''/home/u'' False
     = Inr [''wsl'', ''cd'', ''/home/u'', '';'', ''echo'', ''hi'']"
  using wsl_cmd_echo_hi [of "''/home/u''"] by simp

text \<open>
  C3, as the code has it. The empty string is split into one empty piece, so the
  empty command string contributes the token \<open>''''\<close>: the result is not the launcher alone.
\<close>

theorem wsl_cmd_empty_string_counterexample:
  "wsl_cmd (CmdStr []) [] False = Inr [''wsl'', []]
   \<and> wsl_cmd (CmdStr []) [] False \<noteq> Inr [''wsl'']"
  by (simp add: wsl_cmd_def strip_def strip_chars_def)

text \<open>
  C3, amended. For either launcher and every working directory no error is raised. The
  empty list as command gives the launcher (followed by \<open>cd d ;\<close> when the working
  directory is not empty, \<open>d\<close> its translation) and nothing more; the empty string as
  command gives the same followed by one empty token.
\<close>

theorem wsl_cmd_empty_command:
  "\<exists>d. wsl_path cwd = Inr d
     \<and> wsl_cmd (CmdList []) cwd external =
         Inr ((if external then [''start'', ''cmd'', ''/k'', ''wsl''] else [''wsl'']) @
              (if cwd = [] then [] else [''cd'', d, '';'']))
     \<and> wsl_cmd (CmdStr []) cwd external =
         Inr ((if external then [''start'', ''cmd'', ''/k'', ''wsl''] else [''wsl'']) @
              (if cwd = [] then [] else [''cd'', d, '';'']) @ [[]])"
proof -
  obtain d where d: "wsl_path cwd = Inr d"
    and l: "wsl_cmd (CmdList []) cwd external =
       Inr ((if external then [''start'', ''cmd'', ''/k'', ''wsl''] else [''wsl'']) @
            (if cwd = [] then [] else [''cd'', d, '';'']))"
    using wsl_cmd_list_nil by blast
  have "map strip (split CHR '' '' []) = [[]]"
    by (simp add: strip_def strip_chars_def)
  then show ?thesis
    using d l wsl_cmd_str [OF l, of "[]"] by simp
qed

theorem wsl_cmd_empty_command_witness:
  "wsl_cmd (CmdList []) ''/x'' True = Inr [''start'', ''cmd'', ''/k'', ''wsl'', ''cd'', ''/x'', '';'']
   \<and> wsl_cmd (CmdStr []) ''/x'' True
       = Inr [''start'', ''cmd'', ''/k'', ''wsl'', ''cd'', ''/x'', '';'', []]"
proof -
  have "wsl_path ''/x'' = Inr ''/x''"
    by (simp add: wsl_path_posix)
  then show ?thesis
    using wsl_cmd_empty_command [of "''/x''" True] by simp
qed

lemma join_Cons_Cons: "join sep ((c # t) # ts) = c # join sep (t # ts)"
  by (cases ts) simp_all

lemma join_split: "join [sep] (split sep s) = s"
proof (induction s)
  case Nil
  then show ?case by simp
next
  case (Cons c s)
  obtain t ts where ts: "split sep s = t # ts"
    using split_not_Nil [of sep s] by (cases "split sep s") auto
  show ?case
  proof (cases "c = sep")
    case True
    then show ?thesis
      using Cons.IH ts by simp
  next
    case False
    then have "split sep (c # s) = (c # t) # ts"
      using ts by simp
    then show ?thesis
      using Cons.IH ts by (simp only: join_Cons_Cons)
  qed
qed

lemma split_no_sep: "p \<in> set (split sep s) \<Longrightarrow> sep \<notin> set p"
proof (induction s arbitrary: p)
  case Nil
  then show ?case by simp
next
  case (Cons c s)
  obtain t ts where ts: "split sep s = t # ts"
    using split_not_Nil [of sep s] by (cases "split sep s") auto
  then have "sep \<notin> set t" and "\<forall>q \<in> set ts. sep \<notin> set q"
    using Cons.IH by simp_all
  then show ?case
    using Cons.prems ts by (auto split: if_splits)
qed

lemma strip_chars_between:
  "\<exists>l r. s = l @ strip_chars P s @ r \<and> (\<forall>c \<in> set l. P c) \<and> (\<forall>c \<in> set r. P c)"
proof -
  let ?l = "takeWhile P s" and ?r = "rev (takeWhile P (rev (dropWhile P s)))"
  have "s = ?l @ dropWhile P s"
    by simp
  then have "s = ?l @ strip_chars P s @ ?r"
    using strip_chars_prefix [of P s] by simp
  moreover have "\<forall>c \<in> set ?l. P c"
    by (auto dest: set_takeWhileD)
  moreover have "\<forall>c \<in> set ?r. P c"
    by (auto dest: set_takeWhileD)
  ultimately show ?thesis by blast
qed

lemma strip_pieces:
  "list_all2 (\<lambda>p tok. \<exists>l r. p = l @ tok @ r \<and> (\<forall>c \<in> set l. isspace c) \<and> (\<forall>c \<in> set r. isspace c)
                \<and> (tok = [] \<or> (\<not> isspace (hd tok) \<and> \<not> isspace (last tok))))
     ps (map strip ps)"
proof -
  have "\<exists>l r. p = l @ strip p @ r \<and> (\<forall>c \<in> set l. isspace c) \<and> (\<forall>c \<in> set r. isspace c)
          \<and> (strip p = [] \<or> (\<not> isspace (hd (strip p)) \<and> \<not> isspace (last (strip p))))" for p
    using strip_chars_between [of p isspace] strip_chars_ends [of isspace p]
    unfolding strip_def by blast
  then show ?thesis
    by (simp add: list_all2_map2 list_all2_same)
qed

text \<open>
  C10. With \<open>pre\<close> the launcher and working-directory tokens (what the empty list as
  command gives), a command string \<open>s\<close> adds one token for each piece of \<open>s\<close> between
  single spaces. The pieces are those that give \<open>s\<close> back when joined with single
  spaces and hold no space themselves, one more than \<open>s\<close> has spaces. Each token is its
  piece without the white space at its two ends: the piece is white space, the token,
  white space, and the token is empty or neither begins nor ends with white space.
  So the empty string adds one empty token, a space at the end adds an empty token at
  the end, and two spaces in a row add an empty token between the tokens around them.
\<close>

theorem wsl_cmd_string_tokens:
  "\<exists>pre pieces tokens tokens'.
       wsl_cmd (CmdList []) cwd external = Inr pre
     \<and> wsl_cmd (CmdStr s) cwd external = Inr (pre @ tokens)
     \<and> join '' '' pieces = s
     \<and> (\<forall>p \<in> set pieces. CHR '' '' \<notin> set p)
     \<and> length pieces = Suc (length (filter (\<lambda>c. c = CHR '' '') s))
     \<and> list_all2 (\<lambda>p tok. \<exists>l r. p = l @ tok @ r
                       \<and> (\<forall>c \<in> set l. isspace c) \<and> (\<forall>c \<in> set r. isspace c)
                       \<and> (tok = [] \<or> (\<not> isspace (hd tok) \<and> \<not> isspace (last tok))))
           pieces tokens
     \<and> wsl_cmd (CmdStr []) cwd external = Inr (pre @ [[]])
     \<and> wsl_cmd (CmdStr (s @ '' '')) cwd external = Inr (pre @ tokens @ [[]])
     \<and> wsl_cmd (CmdStr t) cwd external = Inr (pre @ tokens')
     \<and> wsl_cmd (CmdStr (s @ ''  '' @ t)) cwd external = Inr (pre @ tokens @ [[]] @ tokens')"
proof -
  obtain pre where pre: "wsl_cmd (CmdList []) cwd external = Inr pre"
    using wsl_cmd_list_nil [of cwd external] by blast
  define pieces where "pieces = split CHR '' '' s"
  define tokens where "tokens = map strip pieces"
  define tokens' where "tokens' = map strip (split CHR '' '' t)"
  have e: "strip [] = []"
    by (simp add: strip_def strip_chars_def)
  have 1: "wsl_cmd (CmdStr s) cwd external = Inr (pre @ tokens)"
    using wsl_cmd_str [OF pre] by (simp add: tokens_def pieces_def)
  have 2: "join '' '' pieces = s"
    using join_split [of "CHR '' ''" s] by (simp add: pieces_def)
  have 3: "\<forall>p \<in> set pieces. CHR '' '' \<notin> set p"
    using split_no_sep [of _ "CHR '' ''" s] by (auto simp: pieces_def)
  have 4: "length pieces = Suc (length (filter (\<lambda>c. c = CHR '' '') s))"
    by (simp add: pieces_def length_split)
  have 5: "list_all2 (\<lambda>p tok. \<exists>l r. p = l @ tok @ r
                       \<and> (\<forall>c \<in> set l. isspace c) \<and> (\<forall>c \<in> set r. isspace c)
                       \<and> (tok = [] \<or> (\<not> isspace (hd tok) \<and> \<not> isspace (last tok))))
           pieces tokens"
    unfolding tokens_def by (rule strip_pieces)
  have 6: "wsl_cmd (CmdStr []) cwd external = Inr (pre @ [[]])"
    using wsl_cmd_str [OF pre, of "[]"] e by simp
  have "split CHR '' '' (s @ '' '') = pieces @ [[]]"
    using split_append_sep [of "CHR '' ''" s "[]"] by (simp add: pieces_def)
  then have 7: "wsl_cmd (CmdStr (s @ '' '')) cwd external = Inr (pre @ tokens @ [[]])"
    using wsl_cmd_str [OF pre, of "s @ '' ''"] e by (simp add: tokens_def)
  have 8: "wsl_cmd (CmdStr t) cwd external = Inr (pre @ tokens')"
    using wsl_cmd_str [OF pre] by (simp add: tokens'_def)
  have "split CHR '' '' (s @ ''  '' @ t) = pieces @ [[]] @ split CHR '' '' t"
    using split_append_sep [of "CHR '' ''" s "CHR '' '' # t"] by (simp add: pieces_def)
  then have 9: "wsl_cmd (CmdStr (s @ ''  '' @ t)) cwd external = Inr (pre @ tokens @ [[]] @ tokens')"
    using wsl_cmd_str [OF pre, of "s @ ''  '' @ t"] e by (simp add: tokens_def tokens'_def)
  show ?thesis
    using pre 1 2 3 4 5 6 7 8 9 by blast
qed

theorem wsl_cmd_string_tokens_witness:
  "wsl_cmd (CmdStr (''a'' @ [CHR 0x09] @ '' b '')) [] False = Inr [''wsl'', ''a'', ''b'', []]
   \<and> wsl_cmd (CmdStr (''a'' @ [CHR 0x09] @ '' b  c'')) [] False = Inr [''wsl'', ''a'', ''b'', [], ''c'']"
proof -
  have pre: "wsl_cmd (CmdList []) [] False = Inr [''wsl'']"
    by (simp add: wsl_cmd_def)
  obtain tokens tokens' where
    s: "wsl_cmd (CmdStr (''a'' @ [CHR 0x09] @ '' b'')) [] False = Inr ([''wsl''] @ tokens)"
    and sp: "wsl_cmd (CmdStr ((''a'' @ [CHR 0x09] @ '' b'') @ '' '')) [] False
       = Inr ([''wsl''] @ tokens @ [[]])"
    and t: "wsl_cmd (CmdStr ''c'') [] False = Inr ([''wsl''] @ tokens')"
    and st: "wsl_cmd (CmdStr ((''a'' @ [CHR 0x09] @ '' b'') @ ''  '' @ ''c'')) [] False
       = Inr ([''wsl''] @ tokens @ [[]] @ tokens')"
    using wsl_cmd_string_tokens [of "[]" False "''a'' @ [CHR 0x09] @ '' b''" "''c''"] pre
    by auto
  have "wsl_cmd (CmdStr (''a'' @ [CHR 0x09] @ '' b'')) [] False = Inr [''wsl'', ''a'', ''b'']"
    by (simp add: wsl_cmd_def strip_def strip_chars_def isspace_def)
  then have "tokens = [''a'', ''b'']"
    using s by simp
  moreover have "wsl_cmd (CmdStr ''c'') [] False = Inr [''wsl'', ''c'']"
    by (simp add: wsl_cmd_def strip_def strip_chars_def isspace_def)
  then have "tokens' = [''c'']"
    using t by simp
  ultimately show ?thesis
    using sp st by simp
qed

section \<open>Properties of \<^verbatim>\<open>wsl_env\<close>\<close>

text \<open>
  C1, on the code. The test \<^verbatim>\<open>key[-2] == "/"\<close> reads the last but one character of every
  key without a check of its length: the one-entry mapping \<open>{"A": "1"}\<close> raises
  \<^verbatim>\<open>IndexError\<close>. A key of two characters is read within its bounds.
\<close>

theorem wsl_env_one_char_key_raises:
  "wsl_env [(''A'', ''1'')] = Inl IndexError
   \<and> wsl_env [(''/p'', ''1'')] = Inr [(''WSLENV'', ''/p''), ([], ''1'')]"
  by (simp add: wsl_env_def dict_get_def dict_setitem_def index_neg_def dict_pop_def
      slice_to_neg_def)

text \<open>
  C2, on the code. The mapping \<open>{"A": "1", "B/p": "C:\x"}\<close> raises \<^verbatim>\<open>IndexError\<close> at the
  key \<open>A\<close>; with names of two characters the result is as the example describes it.
\<close>

theorem wsl_env_example_raises:
  "wsl_env [(''A'', ''1''), (''B/p'', ''C:'' @ [bs] @ ''x'')] = Inl IndexError
   \<and> wsl_env [(''AA'', ''1''), (''BB/p'', ''C:'' @ [bs] @ ''x'')]
       = Inr [(''AA'', ''1''), (''WSLENV'', ''AA:BB/p''), (''BB'', ''C:'' @ [bs] @ ''x'')]"
  by (simp add: wsl_env_def dict_get_def dict_setitem_def index_neg_def dict_pop_def
      slice_to_neg_def)

lemma strip_flags_step:
  assumes "2 \<le> length k"
  shows "strip_flags (k # ks) env =
     (if flagged k
      then (case dict_pop env k of
              Inl e \<Rightarrow> Inl e
            | Inr (v, env') \<Rightarrow> strip_flags ks (dict_setitem env' (strip_flag k) v))
      else strip_flags ks env)"
proof -
  have i2: "index_neg k 2 = Inr (k ! (length k - 2))"
    using assms by (simp add: index_neg_def)
  have "k \<noteq> []"
    using assms by auto
  then have i1: "index_neg k 1 = Inr (last k)"
    by (simp add: index_neg_def last_conv_nth Suc_le_eq)
  have unf: "strip_flags (k # ks) env =
     (if k ! (length k - 2) = CHR ''/''
      then if last k \<in> set ''lpuw''
           then (case dict_pop env k of
                   Inl e \<Rightarrow> Inl e
                 | Inr (v, env') \<Rightarrow> strip_flags ks (dict_setitem env' (slice_to_neg k 2) v))
           else strip_flags ks env
      else strip_flags ks env)"
    by (simp only: strip_flags.simps i1 i2 sum.case)
  show ?thesis
  proof (cases "flagged k")
    case True
    then have c: "k ! (length k - 2) = CHR ''/''" "last k \<in> set ''lpuw''"
      unfolding flagged_def by blast+
    have t: "slice_to_neg k 2 = strip_flag k"
      using True by (simp add: strip_flag_def slice_to_neg_def)
    show ?thesis
      using True by (simp only: unf c t if_True simp_thms)
  next
    case False
    then have "\<not> (k ! (length k - 2) = CHR ''/'' \<and> last k \<in> set ''lpuw'')"
      using assms by (simp only: flagged_def simp_thms)
    then show ?thesis
      using False by (auto simp only: unf if_False split: if_splits)
  qed
qed

lemma key_lookup: "k \<in> fst ` set al \<Longrightarrow> \<exists>v. map_of al k = Some v"
  by (metis map_of_eq_None_iff not_None_eq)

lemma lookup_key: "map_of al k = Some v \<Longrightarrow> k \<in> fst ` set al"
  by (metis map_of_eq_None_iff option.distinct(1))

lemma strip_flags_Cons:
  assumes "loop_ok (k # ks) env"
  obtains env' where "strip_flags (k # ks) env = strip_flags ks env'"
    and "loop_ok ks env'"
    and "map_of env' =
      (if flagged k then ((map_of env)(k := None))(strip_flag k \<mapsto> the (map_of env k))
       else map_of env)"
proof (cases "flagged k")
  case False
  have "2 \<le> length k"
    using assms by (simp add: loop_ok_def)
  then have "strip_flags (k # ks) env = strip_flags ks env"
    using strip_flags_step [of k ks env] False by (simp only: if_False)
  moreover have "loop_ok ks env"
    using assms by (simp add: loop_ok_def)
  ultimately show ?thesis
    using that [of env] False by simp
next
  case True
  have len: "2 \<le> length k" and k_new: "k \<notin> set ks" and sub: "set ks \<subseteq> fst ` set env"
    and d: "distinct (map fst env)"
    using assms by (simp_all add: loop_ok_def)
  obtain v where v: "map_of env k = Some v"
    using assms key_lookup [of k env] by (auto simp: loop_ok_def)
  define env' where "env' = dict_setitem (AList.delete k env) (strip_flag k) v"
  have m': "map_of env' = ((map_of env)(k := None))(strip_flag k \<mapsto> v)"
    by (simp add: env'_def dict_setitem_def update_conv' delete_conv')
  have "dict_pop env k = Inr (v, AList.delete k env)"
    using v by (simp add: dict_pop_def)
  then have step: "strip_flags (k # ks) env = strip_flags ks env'"
    using strip_flags_step [OF len, of ks env] True
    by (simp only: if_True sum.case prod.case env'_def)
  have "set ks \<subseteq> fst ` set env'"
  proof
    fix x assume x: "x \<in> set ks"
    then obtain w where w: "map_of env x = Some w"
      using sub key_lookup [of x env] by auto
    have "x \<noteq> k"
      using x k_new by auto
    then have "\<exists>u. map_of env' x = Some u"
      using w by (simp add: m')
    then show "x \<in> fst ` set env'"
      by (metis lookup_key)
  qed
  moreover have "distinct (map fst env')"
    using d by (simp add: env'_def dict_setitem_def distinct_update distinct_delete)
  ultimately have "loop_ok ks env'"
    using assms by (simp add: loop_ok_def)
  then show ?thesis
    using that [of env'] step m' v True by simp
qed

lemma strip_flags_returns:
  "loop_ok ks env \<Longrightarrow> \<exists>out. strip_flags ks env = Inr out \<and> distinct (map fst out)"
proof (induction ks arbitrary: env)
  case Nil
  then show ?case by (simp add: loop_ok_def)
next
  case (Cons k ks)
  then show ?case
    by (metis strip_flags_Cons)
qed

lemma strip_flags_present:
  assumes "loop_ok ks env" and "strip_flags ks env = Inr out"
    and "map_of env x = Some v" and "\<not> (x \<in> set ks \<and> flagged x)"
  shows "\<exists>w. map_of out x = Some w"
  using assms
proof (induction ks arbitrary: env v)
  case Nil
  then show ?case by auto
next
  case (Cons k ks)
  obtain env' where e: "strip_flags (k # ks) env = strip_flags ks env'" "loop_ok ks env'"
    "map_of env' =
      (if flagged k then ((map_of env)(k := None))(strip_flag k \<mapsto> the (map_of env k))
       else map_of env)"
    using strip_flags_Cons [OF Cons.prems(1)] by blast
  have "x \<noteq> k \<or> \<not> flagged k"
    using Cons.prems(4) by auto
  then have "\<exists>u. map_of env' x = Some u"
    using Cons.prems(3) e(3) by auto
  then obtain u where "map_of env' x = Some u" ..
  moreover have "strip_flags ks env' = Inr out"
    using Cons.prems(2) e(1) by simp
  moreover have "\<not> (x \<in> set ks \<and> flagged x)"
    using Cons.prems(4) by auto
  ultimately show ?case
    using Cons.IH [OF e(2)] by blast
qed

lemma strip_flags_untouched:
  assumes "loop_ok ks env" and "strip_flags ks env = Inr out"
    and "\<not> (x \<in> set ks \<and> flagged x)"
    and "\<forall>k \<in> set ks. flagged k \<longrightarrow> strip_flag k \<noteq> x"
  shows "map_of out x = map_of env x"
  using assms
proof (induction ks arbitrary: env)
  case Nil
  then show ?case by auto
next
  case (Cons k ks)
  obtain env' where e: "strip_flags (k # ks) env = strip_flags ks env'" "loop_ok ks env'"
    "map_of env' =
      (if flagged k then ((map_of env)(k := None))(strip_flag k \<mapsto> the (map_of env k))
       else map_of env)"
    using strip_flags_Cons [OF Cons.prems(1)] by blast
  have "map_of env' x = map_of env x"
    using Cons.prems(3,4) e(3) by auto
  moreover have "strip_flags ks env' = Inr out"
    using Cons.prems(2) e(1) by simp
  moreover have "\<not> (x \<in> set ks \<and> flagged x)" "\<forall>k \<in> set ks. flagged k \<longrightarrow> strip_flag k \<noteq> x"
    using Cons.prems(3,4) by auto
  ultimately show ?case
    using Cons.IH [OF e(2)] by simp
qed

lemma strip_flags_name:
  assumes "loop_ok ks env" and "strip_flags ks env = Inr out"
    and "ks = pre @ k # post"
    and "\<not> (flagged k \<and> flagged (strip_flag k) \<and> strip_flag k \<in> set post)"
  shows "\<exists>w. map_of out (strip_flag k) = Some w"
  using assms
proof (induction pre arbitrary: ks env)
  case Nil
  then have ok: "loop_ok (k # post) env" and r: "strip_flags (k # post) env = Inr out"
    by simp_all
  obtain env' where e: "strip_flags (k # post) env = strip_flags post env'" "loop_ok post env'"
    "map_of env' =
      (if flagged k then ((map_of env)(k := None))(strip_flag k \<mapsto> the (map_of env k))
       else map_of env)"
    using strip_flags_Cons [OF ok] by blast
  obtain v where v: "map_of env k = Some v"
    using ok key_lookup [of k env] by (auto simp: loop_ok_def)
  have "\<exists>u. map_of env' (strip_flag k) = Some u"
    using e(3) v by (auto simp: strip_flag_def)
  then obtain u where u: "map_of env' (strip_flag k) = Some u" ..
  have "\<not> (strip_flag k \<in> set post \<and> flagged (strip_flag k))"
    using Nil.prems(4) by (auto simp: strip_flag_def)
  then show ?case
    using strip_flags_present [OF e(2) _ u] r e(1) by simp
next
  case (Cons p pre)
  then have ok: "loop_ok (p # pre @ k # post) env"
    and r: "strip_flags (p # pre @ k # post) env = Inr out"
    by simp_all
  obtain env' where e: "strip_flags (p # pre @ k # post) env = strip_flags (pre @ k # post) env'"
    "loop_ok (pre @ k # post) env'"
    using strip_flags_Cons [OF ok] by blast
  show ?case
    using Cons.IH [OF e(2) _ refl Cons.prems(4)] r e(1) by simp
qed

lemma strip_flags_value:
  assumes "loop_ok ks env" and "strip_flags ks env = Inr out"
    and "ks = pre @ k # post"
    and "\<forall>k' \<in> set pre. flagged k' \<longrightarrow> strip_flag k' \<noteq> k"
    and "\<forall>k' \<in> set post. flagged k' \<longrightarrow> strip_flag k' \<noteq> strip_flag k"
    and "\<not> (flagged k \<and> flagged (strip_flag k) \<and> strip_flag k \<in> set post)"
  shows "map_of out (strip_flag k) = map_of env k"
  using assms
proof (induction pre arbitrary: ks env)
  case Nil
  then have ok: "loop_ok (k # post) env" and r: "strip_flags (k # post) env = Inr out"
    by simp_all
  obtain env' where e: "strip_flags (k # post) env = strip_flags post env'" "loop_ok post env'"
    "map_of env' =
      (if flagged k then ((map_of env)(k := None))(strip_flag k \<mapsto> the (map_of env k))
       else map_of env)"
    using strip_flags_Cons [OF ok] by blast
  obtain v where v: "map_of env k = Some v"
    using ok key_lookup [of k env] by (auto simp: loop_ok_def)
  have u: "map_of env' (strip_flag k) = map_of env k"
    using e(3) v by (auto simp: strip_flag_def)
  have "\<not> (strip_flag k \<in> set post \<and> flagged (strip_flag k))"
    using Nil.prems(6) by (auto simp: strip_flag_def)
  then have "map_of out (strip_flag k) = map_of env' (strip_flag k)"
    using strip_flags_untouched [OF e(2), of out "strip_flag k"] r e(1) Nil.prems(5) by simp
  then show ?case
    using u by simp
next
  case (Cons p pre)
  then have ok: "loop_ok (p # pre @ k # post) env"
    and r: "strip_flags (p # pre @ k # post) env = Inr out"
    by simp_all
  obtain env' where e: "strip_flags (p # pre @ k # post) env = strip_flags (pre @ k # post) env'"
    "loop_ok (pre @ k # post) env'"
    "map_of env' =
      (if flagged p then ((map_of env)(p := None))(strip_flag p \<mapsto> the (map_of env p))
       else map_of env)"
    using strip_flags_Cons [OF ok] by blast
  have "p \<noteq> k"
    using ok by (auto simp: loop_ok_def)
  moreover have "flagged p \<longrightarrow> strip_flag p \<noteq> k"
    using Cons.prems(4) by simp
  ultimately have same: "map_of env' k = map_of env k"
    using e(3) by auto
  have "\<forall>k' \<in> set pre. flagged k' \<longrightarrow> strip_flag k' \<noteq> k"
    using Cons.prems(4) by simp
  then have "map_of out (strip_flag k) = map_of env' k"
    using Cons.IH [OF e(2) _ refl _ Cons.prems(5,6)] r e(1) by simp
  then show ?case
    using same by simp
qed

lemma strip_flag_shorter: "flagged x \<Longrightarrow> strip_flag x \<noteq> x"
proof
  assume f: "flagged x" and e: "strip_flag x = x"
  have "length (strip_flag x) = length x - 2"
    using f by (simp add: strip_flag_def)
  moreover have "2 \<le> length x"
    using f by (simp add: flagged_def)
  ultimately show False
    using e by simp
qed

lemma strip_flags_popped:
  assumes "loop_ok ks env" and "strip_flags ks env = Inr out"
    and "ks = pre @ x # post" and "flagged x"
    and "\<forall>k \<in> set post. flagged k \<longrightarrow> strip_flag k \<noteq> x"
  shows "map_of out x = None"
  using assms
proof (induction pre arbitrary: ks env)
  case Nil
  then have ok: "loop_ok (x # post) env" and r: "strip_flags (x # post) env = Inr out"
    by simp_all
  obtain env' where e: "strip_flags (x # post) env = strip_flags post env'" "loop_ok post env'"
    "map_of env' =
      (if flagged x then ((map_of env)(x := None))(strip_flag x \<mapsto> the (map_of env x))
       else map_of env)"
    using strip_flags_Cons [OF ok] by blast
  have "map_of env' x = None"
    using e(3) Nil.prems(4) strip_flag_shorter [of x] by auto
  moreover have "x \<notin> set post"
    using ok by (simp add: loop_ok_def)
  ultimately show ?case
    using strip_flags_untouched [OF e(2), of out x] r e(1) Nil.prems(5) by simp
next
  case (Cons p pre)
  then have ok: "loop_ok (p # pre @ x # post) env"
    and r: "strip_flags (p # pre @ x # post) env = Inr out"
    by simp_all
  obtain env' where e: "strip_flags (p # pre @ x # post) env = strip_flags (pre @ x # post) env'"
    "loop_ok (pre @ x # post) env'"
    using strip_flags_Cons [OF ok] by blast
  show ?case
    using Cons.IH [OF e(2) _ refl Cons.prems(4,5)] r e(1) by simp
qed

lemma split_unique: "x \<notin> set a \<Longrightarrow> x \<notin> set c \<Longrightarrow> a @ x # b = c @ x # d \<Longrightarrow> b = d"
proof (induction a arbitrary: c)
  case Nil
  then show ?case by (cases c) auto
next
  case (Cons y a)
  then show ?case by (cases c) auto
qed

lemma strip_flags_name_iff:
  assumes ok: "loop_ok ks env" and r: "strip_flags ks env = Inr out"
    and ks: "ks = pre @ k # post"
  shows "(\<exists>w. map_of out (strip_flag k) = Some w) \<longleftrightarrow>
     \<not> (flagged k \<and> flagged (strip_flag k) \<and>
        (\<exists>post1 post2. post = post1 @ strip_flag k # post2 \<and>
           (\<forall>k' \<in> set post2. flagged k' \<longrightarrow> strip_flag k' \<noteq> strip_flag k)))"
proof (cases "flagged k \<and> flagged (strip_flag k) \<and> strip_flag k \<in> set post")
  case False
  then have "\<exists>w. map_of out (strip_flag k) = Some w"
    using strip_flags_name [OF ok r ks] by blast
  moreover have "\<not> (\<exists>post1 post2. post = post1 @ strip_flag k # post2) \<or> \<not> flagged k
      \<or> \<not> flagged (strip_flag k)"
    using False by auto
  ultimately show ?thesis by blast
next
  case True
  define x where "x = strip_flag k"
  have fx: "flagged x" and fk: "flagged k"
    using True by (simp_all add: x_def)
  obtain post1 post2 where post: "post = post1 @ x # post2"
    using True split_list [of x post] by (auto simp: x_def)
  have d: "distinct ks"
    using ok by (simp add: loop_ok_def)
  then have uniq: "x \<notin> set post1" "x \<notin> set post2"
    using ks post by auto
  have dec: "post = a @ x # b \<Longrightarrow> b = post2" for a b
  proof -
    assume "post = a @ x # b"
    then have "a @ x # b = post1 @ x # post2"
      using post by simp
    moreover have "x \<notin> set a"
      using d ks \<open>post = a @ x # b\<close> by auto
    ultimately show "b = post2"
      using uniq(1) split_unique [of x a post1 b post2] by simp
  qed
  show ?thesis
  proof (cases "\<forall>k' \<in> set post2. flagged k' \<longrightarrow> strip_flag k' \<noteq> x")
    case True
    have "ks = (pre @ k # post1) @ x # post2"
      using ks post by simp
    then have "map_of out x = None"
      using strip_flags_popped [OF ok r _ fx True] by blast
    then show ?thesis
      using fk fx post True by (auto simp: x_def)
  next
    case False
    then obtain k' where k': "k' \<in> set post2" "flagged k'" "strip_flag k' = x"
      by blast
    then obtain c e where ce: "post2 = c @ k' # e"
      using split_list [of k' post2] by auto
    then have "x \<notin> set e"
      using uniq(2) by simp
    moreover have "ks = (pre @ k # post1 @ x # c) @ k' # e"
      using ks post ce by simp
    ultimately have "\<exists>w. map_of out (strip_flag k') = Some w"
      using strip_flags_name [OF ok r, of "pre @ k # post1 @ x # c" k' e] k'(3) by simp
    then have "\<exists>w. map_of out x = Some w"
      using k'(3) by simp
    moreover have "\<not> (\<exists>a b. post = a @ x # b \<and>
        (\<forall>k' \<in> set b. flagged k' \<longrightarrow> strip_flag k' \<noteq> x))"
      using dec False by blast
    ultimately show ?thesis
      by (simp add: x_def)
  qed
qed

lemma wsl_env_directive:
  assumes "env \<noteq> []"
  shows "\<exists>env2. wsl_env env = strip_flags (map fst env) env2
           \<and> map_of env2 = (map_of env)(''WSLENV'' \<mapsto> directive env)
           \<and> (distinct (map fst env) \<longrightarrow> distinct (map fst env2))"
proof (cases "dict_get env ''WSLENV'' [] = []")
  case True
  then have "directive env = join '':'' (map fst env)"
    by (auto simp: directive_def dict_get_def split: option.splits)
  then show ?thesis
    using assms True
    by (intro exI [of _ "dict_setitem env ''WSLENV'' (join '':'' (map fst env))"])
      (simp add: wsl_env_def Let_def dict_setitem_def update_conv' distinct_update)
next
  case False
  define j where "j = join '':'' (map fst env)"
  define env1 where "env1 = dict_setitem env ''WSLENV'' j"
  define d where "d = j @ '':'' @ strip_of '' :'' (dict_get env ''WSLENV'' [])"
  have dd: "directive env = d"
    using False by (auto simp: directive_def d_def j_def dict_get_def split: option.splits)
  have g: "dict_getitem env1 ''WSLENV'' = Inr j"
    by (simp add: env1_def dict_getitem_def dict_setitem_def update_conv')
  have "wsl_env env = strip_flags (map fst env) (dict_setitem env1 ''WSLENV'' d)"
    using assms False g by (simp add: wsl_env_def Let_def j_def [symmetric] env1_def [symmetric] d_def)
  moreover have "map_of (dict_setitem env1 ''WSLENV'' d) = (map_of env)(''WSLENV'' \<mapsto> d)"
    by (simp add: env1_def dict_setitem_def update_conv')
  moreover have "distinct (map fst env) \<longrightarrow> distinct (map fst (dict_setitem env1 ''WSLENV'' d))"
    by (simp add: env1_def dict_setitem_def distinct_update)
  ultimately show ?thesis
    using dd by blast
qed

text \<open>
  C4, as the code has it. A flagged entry is moved onto its stripped name whatever is
  there. For \<open>{"BB/p": "x", "BB": "y"}\<close> the result holds \<open>BB\<close> = \<open>x\<close> and the value
  \<open>y\<close> is gone. For \<open>{"AA/p/p": "x", "AA/p": "y"}\<close> the name \<open>AA/p/p\<close> is stripped to
  \<open>AA/p\<close>, which is then moved on to \<open>AA\<close>: the stripped name \<open>AA/p\<close> is no key of the
  result. For \<open>{"AA": "1", "WSLENV": "Z"}\<close> the key \<open>WSLENV\<close> holds the directive
  \<open>AA:WSLENV:Z\<close> and not the supplied \<open>Z\<close>.
\<close>

theorem wsl_env_collision_counterexample:
  "wsl_env [(''BB/p'', ''x''), (''BB'', ''y'')] = Inr [(''BB'', ''x''), (''WSLENV'', ''BB/p:BB'')]
   \<and> ''y'' \<notin> snd ` set [(''BB'', ''x''), (''WSLENV'', ''BB/p:BB'')]
   \<and> wsl_env [(''AA/p/p'', ''x''), (''AA/p'', ''y'')]
       = Inr [(''WSLENV'', ''AA/p/p:AA/p''), (''AA'', ''x'')]
   \<and> strip_flag ''AA/p/p'' = ''AA/p''
   \<and> ''AA/p'' \<notin> fst ` set [(''WSLENV'', ''AA/p/p:AA/p''), (''AA'', ''x'')]
   \<and> wsl_env [(''AA'', ''1''), (''WSLENV'', ''Z'')]
       = Inr [(''AA'', ''1''), (''WSLENV'', ''AA:WSLENV:Z'')]
   \<and> ''Z'' \<notin> snd ` set [(''AA'', ''1''), (''WSLENV'', ''AA:WSLENV:Z'')]"
  by (simp add: wsl_env_def dict_get_def dict_getitem_def dict_setitem_def index_neg_def
      dict_pop_def slice_to_neg_def strip_flag_def flagged_def strip_of_def strip_chars_def)

text \<open>
  C4, amended. For every mapping whose names have at least two characters each,
  \<^verbatim>\<open>wsl_env\<close> returns a mapping with distinct keys, and for every supplied name \<open>k\<close>, with
  \<open>pre\<close> the names supplied before it and \<open>post\<close> those after it:
  \<^item> the stripped name of \<open>k\<close> is a key of the result, except exactly when \<open>k\<close> is
    flagged and its stripped name is itself a flagged name supplied after \<open>k\<close> to which
    no flagged name after that one is stripped;
  \<^item> the value supplied for \<open>k\<close> (other than \<open>WSLENV\<close>) is found under the stripped name of
    \<open>k\<close> when no flagged name before \<open>k\<close> is stripped to \<open>k\<close>, no flagged name after \<open>k\<close>
    is stripped to the stripped name of \<open>k\<close>, and that stripped name is not a flagged
    name supplied after \<open>k\<close>;
  \<^item> when a flagged name and its unflagged counterpart are both supplied, the
    counterpart's key holds the value of the flagged entry (of the last such one, its
    own value not overwritten before), and the counterpart's own value, if different,
    is not kept under that key;
  \<^item> the key \<open>WSLENV\<close> holds the directive (the supplied names joined by colons, then a
    colon and the supplied \<open>WSLENV\<close> value without the spaces and colons at its ends
    when that value is not empty), unless a flagged name is stripped to \<open>WSLENV\<close>.
\<close>

theorem wsl_env_keeps_entries:
  assumes "distinct (map fst env)"
    and "\<forall>k \<in> fst ` set env. 2 \<le> length k"
  shows "\<exists>out. wsl_env env = Inr out \<and> distinct (map fst out)
     \<and> (\<forall>pre k post. map fst env = pre @ k # post \<longrightarrow>
          (strip_flag k \<in> fst ` set out \<longleftrightarrow>
           \<not> (flagged k \<and> flagged (strip_flag k) \<and>
              (\<exists>post1 post2. post = post1 @ strip_flag k # post2 \<and>
                 (\<forall>k' \<in> set post2. flagged k' \<longrightarrow> strip_flag k' \<noteq> strip_flag k)))))
     \<and> (\<forall>pre k v post. map fst env = pre @ k # post \<longrightarrow> (k, v) \<in> set env \<longrightarrow>
          k \<noteq> ''WSLENV'' \<longrightarrow>
          (\<forall>k' \<in> set pre. flagged k' \<longrightarrow> strip_flag k' \<noteq> k) \<longrightarrow>
          (\<forall>k' \<in> set post. flagged k' \<longrightarrow> strip_flag k' \<noteq> strip_flag k) \<longrightarrow>
          \<not> (flagged k \<and> flagged (strip_flag k) \<and> strip_flag k \<in> set post) \<longrightarrow>
          map_of out (strip_flag k) = Some v)
     \<and> (\<forall>pre k v post w. map fst env = pre @ k # post \<longrightarrow> (k, v) \<in> set env \<longrightarrow>
          flagged k \<longrightarrow> \<not> flagged (strip_flag k) \<longrightarrow> (strip_flag k, w) \<in> set env \<longrightarrow>
          (\<forall>k' \<in> set pre. flagged k' \<longrightarrow> strip_flag k' \<noteq> k) \<longrightarrow>
          (\<forall>k' \<in> set post. flagged k' \<longrightarrow> strip_flag k' \<noteq> strip_flag k) \<longrightarrow>
          w \<noteq> v \<longrightarrow>
          map_of out (strip_flag k) = Some v \<and> (strip_flag k, w) \<notin> set out)
     \<and> (env \<noteq> [] \<longrightarrow> (\<forall>k \<in> fst ` set env. flagged k \<longrightarrow> strip_flag k \<noteq> ''WSLENV'') \<longrightarrow>
          map_of out ''WSLENV'' = Some (directive env))"
proof (cases "env = []")
  case True
  then show ?thesis by (simp add: wsl_env_def)
next
  case False
  then obtain env2 where e: "wsl_env env = strip_flags (map fst env) env2"
    and m2: "map_of env2 = (map_of env)(''WSLENV'' \<mapsto> directive env)"
    and d2: "distinct (map fst env2)"
    using wsl_env_directive [of env] assms(1) by blast
  have "\<exists>w. map_of env2 k = Some w" if "k \<in> fst ` set env" for k
    using key_lookup [OF that] by (auto simp: m2)
  then have "set (map fst env) \<subseteq> fst ` set env2"
    using lookup_key [of env2] by fastforce
  then have ok: "loop_ok (map fst env) env2"
    using assms d2 by (simp add: loop_ok_def)
  then obtain out where out: "strip_flags (map fst env) env2 = Inr out" "distinct (map fst out)"
    using strip_flags_returns by blast
  have n: "strip_flag k \<in> fst ` set out \<longleftrightarrow>
           \<not> (flagged k \<and> flagged (strip_flag k) \<and>
              (\<exists>post1 post2. post = post1 @ strip_flag k # post2 \<and>
                 (\<forall>k' \<in> set post2. flagged k' \<longrightarrow> strip_flag k' \<noteq> strip_flag k)))"
    if "map fst env = pre @ k # post" for pre k post
  proof -
    have "strip_flag k \<in> fst ` set out \<longleftrightarrow> (\<exists>w. map_of out (strip_flag k) = Some w)"
      using key_lookup [of "strip_flag k" out] lookup_key [of out "strip_flag k"] by blast
    then show ?thesis
      using strip_flags_name_iff [OF ok out(1) that] by simp
  qed
  have v: "map_of out (strip_flag k) = Some v"
    if "map fst env = pre @ k # post" "(k, v) \<in> set env" "k \<noteq> ''WSLENV''"
      "\<forall>k' \<in> set pre. flagged k' \<longrightarrow> strip_flag k' \<noteq> k"
      "\<forall>k' \<in> set post. flagged k' \<longrightarrow> strip_flag k' \<noteq> strip_flag k"
      "\<not> (flagged k \<and> flagged (strip_flag k) \<and> strip_flag k \<in> set post)" for pre k v post
  proof -
    have "map_of env k = Some v"
      using that(2) assms(1) by simp
    then have "map_of env2 k = Some v"
      using that(3) by (simp add: m2)
    then show ?thesis
      using strip_flags_value [OF ok out(1) that(1,4,5,6)] by simp
  qed
  have o: "map_of out (strip_flag k) = Some v \<and> (strip_flag k, w) \<notin> set out"
    if "map fst env = pre @ k # post" "(k, v) \<in> set env" "flagged k" "\<not> flagged (strip_flag k)"
      "(strip_flag k, w) \<in> set env"
      "\<forall>k' \<in> set pre. flagged k' \<longrightarrow> strip_flag k' \<noteq> k"
      "\<forall>k' \<in> set post. flagged k' \<longrightarrow> strip_flag k' \<noteq> strip_flag k"
      "w \<noteq> v" for pre k v post w
  proof -
    have "\<not> flagged ''WSLENV''"
      by (simp add: flagged_def)
    then have "k \<noteq> ''WSLENV''"
      using that(3) by auto
    then have m: "map_of out (strip_flag k) = Some v"
      using v [OF that(1,2) _ that(6,7)] that(4) by simp
    have "(strip_flag k, w) \<notin> set out"
    proof
      assume "(strip_flag k, w) \<in> set out"
      then have "map_of out (strip_flag k) = Some w"
        using out(2) by (rule map_of_is_SomeI [rotated])
      then show False
        using m that(8) by simp
    qed
    then show ?thesis
      using m by simp
  qed
  have "\<not> flagged ''WSLENV''"
    by (simp add: flagged_def)
  then have w: "map_of out ''WSLENV'' = Some (directive env)"
    if "\<forall>k \<in> fst ` set env. flagged k \<longrightarrow> strip_flag k \<noteq> ''WSLENV''"
    using strip_flags_untouched [OF ok out(1), of "''WSLENV''"] that by (simp add: m2)
  have R: "wsl_env env = Inr out"
    using e out(1) by simp
  have N: "\<forall>pre k post. map fst env = pre @ k # post \<longrightarrow>
          (strip_flag k \<in> fst ` set out \<longleftrightarrow>
           \<not> (flagged k \<and> flagged (strip_flag k) \<and>
              (\<exists>post1 post2. post = post1 @ strip_flag k # post2 \<and>
                 (\<forall>k' \<in> set post2. flagged k' \<longrightarrow> strip_flag k' \<noteq> strip_flag k))))"
    by (intro allI impI) (rule n; assumption)
  have V: "\<forall>pre k v post. map fst env = pre @ k # post \<longrightarrow> (k, v) \<in> set env \<longrightarrow>
          k \<noteq> ''WSLENV'' \<longrightarrow>
          (\<forall>k' \<in> set pre. flagged k' \<longrightarrow> strip_flag k' \<noteq> k) \<longrightarrow>
          (\<forall>k' \<in> set post. flagged k' \<longrightarrow> strip_flag k' \<noteq> strip_flag k) \<longrightarrow>
          \<not> (flagged k \<and> flagged (strip_flag k) \<and> strip_flag k \<in> set post) \<longrightarrow>
          map_of out (strip_flag k) = Some v"
    by (intro allI impI) (rule v; assumption)
  have O: "\<forall>pre k v post w. map fst env = pre @ k # post \<longrightarrow> (k, v) \<in> set env \<longrightarrow>
          flagged k \<longrightarrow> \<not> flagged (strip_flag k) \<longrightarrow> (strip_flag k, w) \<in> set env \<longrightarrow>
          (\<forall>k' \<in> set pre. flagged k' \<longrightarrow> strip_flag k' \<noteq> k) \<longrightarrow>
          (\<forall>k' \<in> set post. flagged k' \<longrightarrow> strip_flag k' \<noteq> strip_flag k) \<longrightarrow>
          w \<noteq> v \<longrightarrow>
          map_of out (strip_flag k) = Some v \<and> (strip_flag k, w) \<notin> set out"
    by (intro allI impI) (rule o; assumption)
  have W: "env \<noteq> [] \<longrightarrow> (\<forall>k \<in> fst ` set env. flagged k \<longrightarrow> strip_flag k \<noteq> ''WSLENV'') \<longrightarrow>
          map_of out ''WSLENV'' = Some (directive env)"
    by (intro impI) (rule w; assumption)
  show ?thesis
    by (rule exI [of _ out]) (intro conjI R out(2) N V O W)
qed

theorem wsl_env_keeps_entries_witness:
  "\<exists>out. wsl_env [(''AA/p'', ''y''), (''AA/p/p'', ''x'')] = Inr out
     \<and> ''AA'' \<in> fst ` set out \<and> ''AA/p'' \<in> fst ` set out
     \<and> map_of out ''AA'' = Some ''y'' \<and> map_of out ''AA/p'' = Some ''x''
     \<and> map_of out ''WSLENV'' = Some ''AA/p:AA/p/p''"
proof -
  let ?env = "[(''AA/p'', ''y''), (''AA/p/p'', ''x'')]"
  have f: "flagged ''AA/p''" "flagged ''AA/p/p''" "\<not> flagged ''AA''"
    by (simp_all add: flagged_def)
  then have s: "strip_flag ''AA/p'' = ''AA''" "strip_flag ''AA/p/p'' = ''AA/p''"
    by (simp_all add: strip_flag_def)
  have "distinct (map fst ?env)" and "\<forall>k \<in> fst ` set ?env. 2 \<le> length k"
    by simp_all
  from wsl_env_keeps_entries [OF this]
  obtain out where r: "wsl_env ?env = Inr out"
    and n: "\<And>pre k post. map fst ?env = pre @ k # post \<Longrightarrow>
          (strip_flag k \<in> fst ` set out \<longleftrightarrow>
           \<not> (flagged k \<and> flagged (strip_flag k) \<and>
              (\<exists>post1 post2. post = post1 @ strip_flag k # post2 \<and>
                 (\<forall>k' \<in> set post2. flagged k' \<longrightarrow> strip_flag k' \<noteq> strip_flag k))))"
    and v: "\<And>pre k v post. map fst ?env = pre @ k # post \<Longrightarrow> (k, v) \<in> set ?env \<Longrightarrow>
          k \<noteq> ''WSLENV'' \<Longrightarrow>
          (\<forall>k' \<in> set pre. flagged k' \<longrightarrow> strip_flag k' \<noteq> k) \<Longrightarrow>
          (\<forall>k' \<in> set post. flagged k' \<longrightarrow> strip_flag k' \<noteq> strip_flag k) \<Longrightarrow>
          \<not> (flagged k \<and> flagged (strip_flag k) \<and> strip_flag k \<in> set post) \<Longrightarrow>
          map_of out (strip_flag k) = Some v"
    and w: "?env \<noteq> [] \<Longrightarrow> (\<forall>k \<in> fst ` set ?env. flagged k \<longrightarrow> strip_flag k \<noteq> ''WSLENV'') \<Longrightarrow>
          map_of out ''WSLENV'' = Some (directive ?env)"
    by blast
  have "strip_flag ''AA/p'' \<in> fst ` set out"
    using n [of "[]" "''AA/p''" "[''AA/p/p'']"] f s by simp
  moreover have "strip_flag ''AA/p/p'' \<in> fst ` set out"
    using n [of "[''AA/p'']" "''AA/p/p''" "[]"] by simp
  moreover have "map_of out (strip_flag ''AA/p'') = Some ''y''"
    using v [of "[]" "''AA/p''" "[''AA/p/p'']" "''y''"] f s by simp
  moreover have "map_of out (strip_flag ''AA/p/p'') = Some ''x''"
    using v [of "[''AA/p'']" "''AA/p/p''" "[]" "''x''"] f s by simp
  moreover have "map_of out ''WSLENV'' = Some ''AA/p:AA/p/p''"
    using w s by (simp add: directive_def)
  ultimately show ?thesis
    using r s by auto
qed

end
